theory Spec2Isabelle
  imports Complex_Main "HOL-Library.Word"
begin

section \<open>The bounded concurrency runner: \<open>promiseAllConcurrent\<close>\<close>

text \<open>
  The source:
  \<^verbatim>\<open>
  function promiseAllConcurrent<A>(thunks: Array<() => Promise<A>>, n?: number) {
    n = n || Math.max(2, os.cpus().length / 2);
    let initial = thunks.slice(0, n);
    let resolved = new Array<Promise<A>>();
    let next = initial.length;
    return new Promise(ok => {
      initial.forEach(x => {
        let res = x();
        resolved.push(res);
        res.then(y => { runNext(); return y; })
      })
      function runNext() {
        if(next === thunks.length){
          ok(Promise.all(resolved));
        } else {
          resolved.push(thunks[next++]().then(x => { runNext(); return x; }));
        }
      }
    });
  }
  \<close>
  The function is asynchronous: the call itself runs the executor (the \<open>forEach\<close>), and
  everything after that happens in \<open>then\<close> callbacks, one per operation that fulfils. The
  model is a state machine. The state holds the variables of the closure and the state of
  every promise involved; the call builds the first state, and one event, the settling of
  an operation in flight, runs the callback that the source attached to it. The
  environment chooses which operation settles next, so a run is a list of operation
  indices (events naming an operation that is not in flight change nothing). An event is
  atomic: the callbacks that one settling triggers have run before the next settling is
  seen. A thunk that throws when called, instead of returning a promise, is not modelled.
\<close>

subsection \<open>Promises and operations\<close>

text \<open>The three states of a promise.\<close>

datatype ('a, 'e) promise = Pending | Fulfilled 'a | Rejected 'e

text \<open>
  A deferred operation (a thunk) is modelled by what the promise it returns settles to,
  once it settles: a value or an error. When it settles is the environment's choice.
\<close>

datatype ('a, 'e) operation = Resolves 'a | Rejects 'e

fun fails :: "('a, 'e) operation \<Rightarrow> bool" where
  "fails (Rejects e) = True"
| "fails (Resolves v) = False"

fun settlement :: "('a, 'e) operation \<Rightarrow> ('a, 'e) promise" where
  "settlement (Resolves v) = Fulfilled v"
| "settlement (Rejects e) = Rejected e"

subsection \<open>The limit and the initial slice\<close>

text \<open>
  A JavaScript number is modelled as a rational (the finite numbers; \<open>NaN\<close> and the
  infinities are left out), the optional argument as an option. \<open>n || d\<close> takes \<open>d\<close>
  when \<open>n\<close> is \<open>undefined\<close> or \<open>0\<close>. \<open>cpus\<close> is \<open>os.cpus().length\<close>.
\<close>

definition limit :: "rat option \<Rightarrow> nat \<Rightarrow> rat" where
  "limit n cpus =
     (case n of
        None \<Rightarrow> max 2 (of_nat cpus / 2)
      | Some v \<Rightarrow> if v = 0 then max 2 (of_nat cpus / 2) else v)"

text \<open>\<open>ToIntegerOrInfinity\<close> of a finite number: truncation towards zero.\<close>

definition toInteger :: "rat \<Rightarrow> int" where
  "toInteger r = (if r < 0 then \<lceil>r\<rceil> else \<lfloor>r\<rfloor>)"

text \<open>
  \<open>Array.prototype.slice(0, end)\<close>: a negative end counts from the end of the array,
  and the result is clamped to the array.
\<close>

definition slice0 :: "'a list \<Rightarrow> rat \<Rightarrow> 'a list" where
  "slice0 xs end =
     (let len = int (length xs);
          rel = toInteger end;
          final = (if rel < 0 then max (len + rel) 0 else min rel len)
      in take (nat final) xs)"

subsection \<open>The state\<close>

text \<open>
  Promises are named by the index of the operation they belong to. \<open>resolved\<close> is the
  array of the source, \<open>nextIdx\<close> its cursor \<open>next\<close>. \<open>inflight\<close> lists the
  operations launched and not settled, \<open>settled\<close> the settled ones in the order they
  settled. \<open>aggregate\<close> is the array that \<open>Promise.all\<close> was given at the first call of
  \<open>ok\<close> (later calls of a promise's resolve function do nothing), and \<open>result\<close> is the
  state of the promise the function returned.
\<close>

record ('a, 'e) runner =
  resolved :: "nat list"
  nextIdx :: nat
  inflight :: "nat list"
  settled :: "nat list"
  aggregate :: "nat list option"
  result :: "('a list, 'e) promise"

text \<open>Calling thunk \<open>i\<close> and pushing its promise onto \<open>resolved\<close>.\<close>

definition launch :: "nat \<Rightarrow> ('a, 'e) runner \<Rightarrow> ('a, 'e) runner" where
  "launch i s = s\<lparr>resolved := resolved s @ [i], inflight := inflight s @ [i]\<rparr>"

text \<open>\<open>ok(p)\<close>: the returned promise follows \<open>p\<close>, unless it already follows one.\<close>

definition ok :: "nat list \<Rightarrow> ('a, 'e) runner \<Rightarrow> ('a, 'e) runner" where
  "ok ps s = (if aggregate s = None then s\<lparr>aggregate := Some ps\<rparr> else s)"

definition runNext :: "('a, 'e) operation list \<Rightarrow> ('a, 'e) runner \<Rightarrow> ('a, 'e) runner" where
  "runNext thunks s =
     (if nextIdx s = length thunks then ok (resolved s) s
      else launch (nextIdx s) (s\<lparr>nextIdx := nextIdx s + 1\<rparr>))"

text \<open>The state of the promise of operation \<open>i\<close>, given the operations settled so far.\<close>

definition promiseState :: "('a, 'e) operation list \<Rightarrow> nat list \<Rightarrow> nat \<Rightarrow> ('a, 'e) promise" where
  "promiseState thunks done i = (if i \<in> set done then settlement (thunks ! i) else Pending)"

text \<open>
  \<open>Promise.all\<close> over promises in the given states. It rejects with the reason of the
  first rejected promise it is notified of (promises already rejected when it subscribes
  notify it in array order), fulfils with all the values in array order once every promise
  has fulfilled, and is pending otherwise.
\<close>

fun promise_all :: "('a, 'e) promise list \<Rightarrow> ('a list, 'e) promise" where
  "promise_all [] = Fulfilled []"
| "promise_all (Rejected e # ps) = Rejected e"
| "promise_all (Pending # ps) =
     (case promise_all ps of Rejected e \<Rightarrow> Rejected e | _ \<Rightarrow> Pending)"
| "promise_all (Fulfilled v # ps) =
     (case promise_all ps of
        Fulfilled vs \<Rightarrow> Fulfilled (v # vs)
      | Pending \<Rightarrow> Pending
      | Rejected e \<Rightarrow> Rejected e)"

text \<open>The returned promise settles once, as the promise it follows settles.\<close>

definition deliver :: "('a, 'e) operation list \<Rightarrow> ('a, 'e) runner \<Rightarrow> ('a, 'e) runner" where
  "deliver thunks s =
     (case aggregate s of
        None \<Rightarrow> s
      | Some ps \<Rightarrow>
          if result s = Pending
          then s\<lparr>result := promise_all (map (promiseState thunks (settled s)) ps)\<rparr>
          else s)"

text \<open>
  The event: operation \<open>i\<close>, in flight, settles. Only a fulfilled operation runs the
  callback with \<open>runNext\<close>; the source attaches no rejection handler.
\<close>

definition settle :: "('a, 'e) operation list \<Rightarrow> nat \<Rightarrow> ('a, 'e) runner \<Rightarrow> ('a, 'e) runner" where
  "settle thunks i s =
     (if i \<in> set (inflight s) then
        let s1 = s\<lparr>inflight := remove1 i (inflight s), settled := settled s @ [i]\<rparr>;
            s2 = (if fails (thunks ! i) then s1 else runNext thunks s1)
        in deliver thunks s2
      else s)"

text \<open>The call: the state when \<open>promiseAllConcurrent\<close> returns its promise.\<close>

definition promiseAllConcurrent ::
    "('a, 'e) operation list \<Rightarrow> rat option \<Rightarrow> nat \<Rightarrow> ('a, 'e) runner" where
  "promiseAllConcurrent thunks n cpus =
     (let initial = slice0 thunks (limit n cpus)
      in fold launch [0..<length initial]
           \<lparr>resolved = [], nextIdx = length initial, inflight = [], settled = [],
            aggregate = None, result = Pending\<rparr>)"

text \<open>A run: the call, then the events of the schedule in order.\<close>

definition run ::
    "('a, 'e) operation list \<Rightarrow> rat option \<Rightarrow> nat \<Rightarrow> nat list \<Rightarrow> ('a, 'e) runner" where
  "run thunks n cpus sched = fold (settle thunks) sched (promiseAllConcurrent thunks n cpus)"

subsection \<open>Invariants of a run\<close>

text \<open>
  The cursor never passes the end, \<open>resolved\<close> holds the promises of the operations
  launched so far in input order, every launched operation is either in flight or settled,
  and \<open>ok\<close> is only ever called with the promises of all operations.
\<close>

definition cursor_inv :: "('a, 'e) operation list \<Rightarrow> ('a, 'e) runner \<Rightarrow> bool" where
  "cursor_inv thunks s \<longleftrightarrow>
     nextIdx s \<le> length thunks \<and> resolved s = [0..<nextIdx s] \<and>
     distinct (inflight s) \<and> distinct (settled s) \<and>
     set (inflight s) \<inter> set (settled s) = {} \<and>
     set (inflight s) \<union> set (settled s) = {0..<nextIdx s} \<and>
     (aggregate s = None \<or> aggregate s = Some [0..<length thunks] \<and> nextIdx s = length thunks)"

text \<open>
  What the returned promise has delivered, in terms of the operations settled so far.
\<close>

definition result_inv :: "('a, 'e) operation list \<Rightarrow> ('a, 'e) runner \<Rightarrow> bool" where
  "result_inv thunks s \<longleftrightarrow>
     (case result s of
        Pending \<Rightarrow>
          aggregate s = None \<or>
          \<not> list_ex (\<lambda>i. fails (thunks ! i)) (settled s) \<and>
          set (settled s) \<noteq> {0..<length thunks}
      | Fulfilled vs \<Rightarrow>
          aggregate s \<noteq> None \<and> thunks = map Resolves vs \<and>
          set (settled s) = {0..<length thunks}
      | Rejected e \<Rightarrow>
          aggregate s \<noteq> None \<and> list_ex (\<lambda>i. thunks ! i = Rejects e) (settled s))"

section \<open>The tarball metadata extractor: \<open>extractFileFromTarball\<close>\<close>

text \<open>
  \<^verbatim>\<open>
  async function extractFileFromTarball(tarball: string, filePath: string): Promise<Buffer> {
    const data = new Array<Buffer>();
    await tar.t({
      file: tarball,
      onentry: entry => {
        if (entry.path as unknown as string === filePath) {
          entry.on('data', c => data.push(c));
        }
      }
    });
    return Buffer.concat(data);
  }
  \<close>
  \<open>tar.t\<close> belongs to the archive library. It is a parameter of the model: given the file
  name it either fails (the archive cannot be opened or parsed) or walks the entries of the
  archive in order, each with its path and the chunks of its content.
\<close>

type_synonym buffer = "8 word list"

record entry =
  path :: string
  chunks :: "buffer list"

datatype error = Error string

definition onentry :: "string \<Rightarrow> buffer list \<Rightarrow> entry \<Rightarrow> buffer list" where
  "onentry filePath data entry = (if path entry = filePath then data @ chunks entry else data)"

definition extractFileFromTarball ::
    "(string \<Rightarrow> error + entry list) \<Rightarrow> string \<Rightarrow> string \<Rightarrow> error + buffer" where
  "extractFileFromTarball tar_t tarball filePath =
     (case tar_t tarball of
        Inl e \<Rightarrow> Inl e
      | Inr entries \<Rightarrow> Inr (concat (foldl (onentry filePath) [] entries)))"

section \<open>The registry orchestrator: \<open>runWithServer\<close>\<close>

subsection \<open>Collecting the tarballs\<close>

text \<open>
  \<^verbatim>\<open>
  const tarballs = new Array<TarballInfo>();
  for (const tarball of tarballFiles) {
    try {
      const pj = JSON.parse((await extractFileFromTarball(tarball, 'package/package.json')).toString());
      tarballs.push({ tarballFile: tarball, packageJson: pj });
    } catch (e) {
      debug(`Error reading ${tarball}'s package.json: ${e.message}`);
    }
  }
  \<close>
  \<open>JSON.parse\<close> (after \<open>toString\<close>) is a parameter. Of the manifest only \<open>name\<close> is
  read later, as a property key: a manifest is modelled as \<open>null\<close> (reading \<open>name\<close> of it
  throws) or as any other value, with the key that its \<open>name\<close> gives.
\<close>

datatype json = JNull | JValue string

record tarballInfo =
  tarballFile :: string
  packageJson :: json

fun collectTarballs ::
    "(string \<Rightarrow> error + entry list) \<Rightarrow> (buffer \<Rightarrow> error + json) \<Rightarrow> string list
      \<Rightarrow> tarballInfo list" where
  "collectTarballs tar_t json_parse [] = []"
| "collectTarballs tar_t json_parse (tarball # tarballFiles) =
     (case extractFileFromTarball tar_t tarball ''package/package.json'' of
        Inl e \<Rightarrow> collectTarballs tar_t json_parse tarballFiles
      | Inr buf \<Rightarrow>
          (case json_parse buf of
             Inl e \<Rightarrow> collectTarballs tar_t json_parse tarballFiles
           | Inr pj \<Rightarrow>
               \<lparr>tarballFile = tarball, packageJson = pj\<rparr>
                 # collectTarballs tar_t json_parse tarballFiles))"

subsection \<open>The package configuration of the serve phase\<close>

text \<open>
  \<^verbatim>\<open>
  const packagesToHide: string[] = [...argv["hide-upstream"]];
  if (argv["hide-tarballs"]) {
    packagesToHide.push(...tarballs.map(t => t.packageJson.name));
  }
  ...
  const finalPackageConfig: any = {};
  for (const mask of packagesToHide) {
    finalPackageConfig[mask] = { access: '$all', publish: '$all' };
  }
  finalPackageConfig['**'] = { access: '$all', publish: '$all', proxy: 'npmjs' };
  \<close>
  The configuration object is a map from masks to rules, and an assignment to a property
  is an update of the map.
\<close>

record rule =
  access :: string
  publish :: string
  proxy :: "string option"

definition hiddenRule :: rule where
  "hiddenRule = \<lparr>access = ''$all'', publish = ''$all'', proxy = None\<rparr>"

definition proxyRule :: rule where
  "proxyRule = \<lparr>access = ''$all'', publish = ''$all'', proxy = Some ''npmjs''\<rparr>"

fun names :: "tarballInfo list \<Rightarrow> error + string list" where
  "names [] = Inr []"
| "names (t # ts) =
     (case packageJson t of
        JNull \<Rightarrow> Inl (Error ''TypeError'')
      | JValue name \<Rightarrow> (case names ts of Inl e \<Rightarrow> Inl e | Inr ns \<Rightarrow> Inr (name # ns)))"

definition packagesToHide ::
    "string list \<Rightarrow> bool \<Rightarrow> tarballInfo list \<Rightarrow> error + string list" where
  "packagesToHide hide_upstream hide_tarballs tarballs =
     (if hide_tarballs
      then case names tarballs of Inl e \<Rightarrow> Inl e | Inr ns \<Rightarrow> Inr (hide_upstream @ ns)
      else Inr hide_upstream)"

definition packagesWithoutUpstream :: "string \<rightharpoonup> rule" where
  "packagesWithoutUpstream = [''**'' \<mapsto> hiddenRule]"

definition finalPackageConfig :: "string list \<Rightarrow> (string \<rightharpoonup> rule)" where
  "finalPackageConfig masks =
     (foldl (\<lambda>config mask. config(mask \<mapsto> hiddenRule)) Map.empty masks)(''**'' \<mapsto> proxyRule)"

subsection \<open>The two registry lifecycles\<close>

text \<open>
  \<^verbatim>\<open>
  async function runVerdaccio(config, port, tempDir, block: () => Promise<void>) {
    await new Promise((ok, ko) => startVerdaccio(config, port, tempDir, VERSION, '...',
      (webServer, addr, _pkgName, _pkgVersion) => {
        webServer.listen(addr.port || addr.path, addr.host, async () => {
          try { await block(); } catch (e) { ko(e); }
          webServer.close();
          ok();
        });
    }));
  }
  \<close>
  The orchestrator is modelled by the trace of what it does to the outside, given how the
  outside answers. An awaited promise is fulfilled, is rejected, or never settles.
  \<open>StartVerdaccio\<close> is the call of \<open>startVerdaccio\<close>, \<open>Listen\<close> the moment the listen
  callback runs (the listener is bound), and \<open>Close\<close> the call of \<open>webServer.close()\<close>,
  which stops the listener; the source does not wait for the server's \<open>close\<close> event.
\<close>

datatype phase = PublishPhase | ServePhase

datatype outcome = Done | Failed | Never

datatype event =
    Mkdtemp
  | StartVerdaccio phase
  | Listen phase
  | PublishAll "string list"
  | Action
  | Close phase
  | ErrorExit
  | Rmdir

definition runVerdaccio :: "phase \<Rightarrow> bool \<Rightarrow> event \<Rightarrow> outcome \<Rightarrow> event list \<times> outcome" where
  "runVerdaccio ph up block blockOutcome =
     (if \<not> up then ([StartVerdaccio ph], Never)
      else case blockOutcome of
             Done \<Rightarrow> ([StartVerdaccio ph, Listen ph, block, Close ph], Done)
           | Failed \<Rightarrow> ([StartVerdaccio ph, Listen ph, block, Close ph], Failed)
           | Never \<Rightarrow> ([StartVerdaccio ph, Listen ph, block], Never))"

text \<open>
  What a run of \<open>runWithServer\<close> is given: the options \<open>--hide-upstream\<close> and
  \<open>--hide-tarballs\<close>, the tarball files found (or the failure of the directory listing or
  glob), the archive library and the JSON parser,
  whether \<open>.npmrc\<close> can be written, whether the registry of each phase comes up and
  listens, how the aggregate of the publishes settles, and how the action settles.
\<close>

record env =
  hide_upstream :: "string list"
  hide_tarballs :: bool
  tarballFiles :: "error + string list"
  tar_t :: "string \<Rightarrow> error + entry list"
  json_parse :: "buffer \<Rightarrow> error + json"
  writeFile_ok :: bool
  registry_up :: "phase \<Rightarrow> bool"
  publishOutcome :: outcome
  actionOutcome :: outcome

definition tarballsOf :: "env \<Rightarrow> tarballInfo list" where
  "tarballsOf env =
     (case tarballFiles env of
        Inl e \<Rightarrow> []
      | Inr files \<Rightarrow> collectTarballs (tar_t env) (json_parse env) files)"

text \<open>
  \<^verbatim>\<open>
  const tempDir = await fs.mkdtemp(...);
  try {
    ... tarballFiles, tarballs, packagesToHide, .npmrc, npmConfigVars ...
    if (tarballs.length > 0) {
      await runVerdaccio(makeVerdaccioConfig(tempDir, packagesWithoutUpstream), port, tempDir,
        async () => { await promiseAllConcurrent(tarballs.map(tarball => () => invokeSubprocess(
          ['npm', '--loglevel', 'silent', 'publish', '--force', tarball.tarballFile], ...))); });
    }
    ... finalPackageConfig ...
    await runVerdaccio(makeVerdaccioConfig(tempDir, finalPackageConfig), port, tempDir,
      async() => { await action(npmConfigVars); });
  } catch(e) {
    console.error(e.message);
    process.exitCode = 1;
  } finally {
    try { await fs.rmdir(tempDir, { recursive: true }); } catch (e) { ... }
  }
  \<close>
  An await that never settles ends the trace: neither \<open>catch\<close> nor \<open>finally\<close> runs.
\<close>

definition afterTry :: "event list \<times> outcome \<Rightarrow> event list" where
  "afterTry r =
     (case snd r of
        Done \<Rightarrow> fst r @ [Rmdir]
      | Failed \<Rightarrow> fst r @ [ErrorExit, Rmdir]
      | Never \<Rightarrow> fst r)"

definition servePhase :: "env \<Rightarrow> event list \<times> outcome" where
  "servePhase env = runVerdaccio ServePhase (registry_up env ServePhase) Action (actionOutcome env)"

definition publishPhase :: "env \<Rightarrow> event list \<times> outcome" where
  "publishPhase env =
     (if length (tarballsOf env) > 0
      then runVerdaccio PublishPhase (registry_up env PublishPhase)
             (PublishAll (map tarballFile (tarballsOf env))) (publishOutcome env)
      else ([], Done))"

definition tryBlock :: "env \<Rightarrow> event list \<times> outcome" where
  "tryBlock env =
     (case tarballFiles env of
        Inl e \<Rightarrow> ([], Failed)
      | Inr files \<Rightarrow>
          (case packagesToHide (hide_upstream env) (hide_tarballs env) (tarballsOf env) of
             Inl e \<Rightarrow> ([], Failed)
           | Inr masks \<Rightarrow>
               if \<not> writeFile_ok env then ([], Failed)
               else case publishPhase env of
                      (ev1, Done) \<Rightarrow> (ev1 @ fst (servePhase env), snd (servePhase env))
                    | (ev1, Failed) \<Rightarrow> (ev1, Failed)
                    | (ev1, Never) \<Rightarrow> (ev1, Never)))"

definition runWithServer :: "env \<Rightarrow> event list" where
  "runWithServer env = Mkdtemp # afterTry (tryBlock env)"

text \<open>The listeners bound after a trace.\<close>

fun bound_after :: "phase list \<Rightarrow> event \<Rightarrow> phase list" where
  "bound_after ls (Listen ph) = ls @ [ph]"
| "bound_after ls (Close ph) = removeAll ph ls"
| "bound_after ls e = ls"

definition listeners :: "event list \<Rightarrow> phase list" where
  "listeners tr = foldl bound_after [] tr"

text \<open>
  A check of a whole trace, from the listeners bound before it: at most one listener is
  bound at every point, and a listener is bound only when none is.
\<close>

fun lifecycle_ok :: "phase list \<Rightarrow> event list \<Rightarrow> bool" where
  "lifecycle_ok ls [] = (length ls \<le> 1)"
| "lifecycle_ok ls (e # es) =
     (length ls \<le> 1 \<and> (case e of Listen ph \<Rightarrow> ls = [] | _ \<Rightarrow> True) \<and>
      lifecycle_ok (bound_after ls e) es)"

section \<open>The daemon front end\<close>

text \<open>
  \<^verbatim>\<open>
  const npmConfigVars = {
    npm_config_userconfig: path.join(tempDir, '.npmrc'),
    npm_config_registry: `http://localhost:${port}/`,
    SERVE_NPM_TARBALLS_PID: `${process.pid}`,
    SERVE_NPM_TARBALLS_WORKDIR: tempDir,
  };
  \<close>
  An object with string keys keeps them in insertion order, so it is an association list.
  \<open>path.join\<close> is a parameter. The port and the process id are naturals, printed in
  decimal as a template literal prints an integer.
\<close>

fun decimal :: "nat \<Rightarrow> string" where
  "decimal n =
     (if n < 10 then [''0123456789'' ! n]
      else decimal (n div 10) @ [''0123456789'' ! (n mod 10)])"

definition npmConfigVars ::
    "(string \<Rightarrow> string \<Rightarrow> string) \<Rightarrow> string \<Rightarrow> nat \<Rightarrow> nat \<Rightarrow> (string \<times> string) list" where
  "npmConfigVars path_join tempDir port pid =
     [(''npm_config_userconfig'', path_join tempDir ''.npmrc''),
      (''npm_config_registry'', ''http://localhost:'' @ decimal port @ ''/''),
      (''SERVE_NPM_TARBALLS_PID'', decimal pid),
      (''SERVE_NPM_TARBALLS_WORKDIR'', tempDir)]"

text \<open>
  The child:
  \<^verbatim>\<open>
  const bashExports = Object.entries(npmConfigEnv)
    .map(([key, value]) => `export ${key}=${value}`)
    .join('\n');
  process.send!(bashExports);
  \<close>
\<close>

definition newline :: char where
  "newline = CHR 0x0A"

fun join :: "string \<Rightarrow> string list \<Rightarrow> string" where
  "join sep [] = []"
| "join sep [x] = x"
| "join sep (x # y # ys) = x @ sep @ join sep (y # ys)"

definition bashExports :: "(string \<times> string) list \<Rightarrow> string" where
  "bashExports npmConfigEnv =
     join [newline] (map (\<lambda>(key, value). ''export '' @ key @ ''='' @ value) npmConfigEnv)"

text \<open>
  The parent:
  \<^verbatim>\<open>
  const daemonProc = childProcess.fork(path.resolve(__filename), process.argv.slice(2), {
    detached: true, stdio: ['ignore', 'ignore', 'ignore', 'ipc'] });
  // Wait for the first message, print that to stdout, then exit
  const childMessage: string = await new Promise(ok => daemonProc.on('message', ok));
  process.stdout.write(childMessage + '\n');
  // Don't wait for the child proc anymore
  daemonProc.disconnect();
  daemonProc.unref();
  \<close>
  The child sends its message from the action, so only if its run reaches the action.
\<close>

definition daemonChildMessage ::
    "env \<Rightarrow> (string \<Rightarrow> string \<Rightarrow> string) \<Rightarrow> string \<Rightarrow> nat \<Rightarrow> nat \<Rightarrow> string option" where
  "daemonChildMessage env path_join tempDir port pid =
     (if Action \<in> set (runWithServer env)
      then Some (bashExports (npmConfigVars path_join tempDir port pid))
      else None)"

datatype parentEvent = Fork | StdoutWrite string | Disconnect | Unref

definition daemonParent :: "string option \<Rightarrow> parentEvent list" where
  "daemonParent childMessage =
     (case childMessage of
        None \<Rightarrow> [Fork]
      | Some m \<Rightarrow> [Fork, StdoutWrite (m @ [newline]), Disconnect, Unref])"

definition stdout :: "parentEvent list \<Rightarrow> string" where
  "stdout tr = concat (map (\<lambda>e. case e of StdoutWrite s \<Rightarrow> s | _ \<Rightarrow> []) tr)"

text \<open>The lines of a text: the pieces that end in a newline, and a last piece if any.\<close>

fun lines :: "string \<Rightarrow> string list" where
  "lines [] = []"
| "lines (c # cs) =
     (if c = newline then [] # lines cs
      else case lines cs of [] \<Rightarrow> [[c]] | l # ls \<Rightarrow> (c # l) # ls)"

section \<open>Properties of the runner\<close>

lemma fold_launch:
  "fold launch is s = s\<lparr>resolved := resolved s @ is, inflight := inflight s @ is\<rparr>"
  by (induction "is" arbitrary: s) (simp_all add: launch_def)

lemma nat_min_max_int: "nat (min (max 2 (int m)) (int N)) = min N (max 2 m)"
  by linarith

lemma toInteger_default: "toInteger (max 2 (rat_of_nat cpus / 2)) = max 2 (int (cpus div 2))"
proof -
  have "\<lfloor>rat_of_nat cpus / 2\<rfloor> = int (cpus div 2)"
    by (metis floor_divide_of_nat_eq of_nat_numeral)
  then show ?thesis
    unfolding toInteger_def max_def by (auto simp: le_floor_iff floor_less_iff)
qed

lemma length_slice0_limit_None:
  "length (slice0 thunks (limit None cpus)) = min (length thunks) (max 2 (cpus div 2))"
proof -
  have "limit None cpus = max 2 (rat_of_nat cpus / 2)"
    by (simp add: limit_def)
  then have "length (slice0 thunks (limit None cpus))
      = min (length thunks) (nat (min (max 2 (int (cpus div 2))) (int (length thunks))))"
    unfolding slice0_def Let_def toInteger_default by (simp only: toInteger_default) simp
  then show ?thesis
    by (simp only: nat_min_max_int) simp
qed

subsection \<open>The effect of one event on each field\<close>

lemma settle_inflight:
  "inflight (settle thunks i s) =
     (if i \<in> set (inflight s)
      then remove1 i (inflight s) @
           (if \<not> fails (thunks ! i) \<and> nextIdx s \<noteq> length thunks then [nextIdx s] else [])
      else inflight s)"
  by (simp add: settle_def runNext_def ok_def launch_def deliver_def Let_def split: option.splits)

lemma settle_settled:
  "settled (settle thunks i s) = (if i \<in> set (inflight s) then settled s @ [i] else settled s)"
  by (simp add: settle_def runNext_def ok_def launch_def deliver_def Let_def split: option.splits)

lemma settle_nextIdx:
  "nextIdx (settle thunks i s) =
     (if i \<in> set (inflight s) \<and> \<not> fails (thunks ! i) \<and> nextIdx s \<noteq> length thunks
      then nextIdx s + 1 else nextIdx s)"
  by (simp add: settle_def runNext_def ok_def launch_def deliver_def Let_def split: option.splits)

lemma settle_resolved:
  "resolved (settle thunks i s) =
     (if i \<in> set (inflight s) \<and> \<not> fails (thunks ! i) \<and> nextIdx s \<noteq> length thunks
      then resolved s @ [nextIdx s] else resolved s)"
  by (simp add: settle_def runNext_def ok_def launch_def deliver_def Let_def split: option.splits)

lemma settle_aggregate:
  "aggregate (settle thunks i s) =
     (if i \<in> set (inflight s) \<and> \<not> fails (thunks ! i) \<and> nextIdx s = length thunks
         \<and> aggregate s = None
      then Some (resolved s) else aggregate s)"
  by (simp add: settle_def runNext_def ok_def launch_def deliver_def Let_def split: option.splits)

lemma settle_result:
  "result (settle thunks i s) =
     (if i \<in> set (inflight s) \<and> result s = Pending
      then (case aggregate (settle thunks i s) of
              None \<Rightarrow> Pending
            | Some ps \<Rightarrow> promise_all (map (promiseState thunks (settled s @ [i])) ps))
      else result s)"
  by (simp add: settle_def runNext_def ok_def launch_def deliver_def Let_def split: option.splits)

lemma fold_settle_induct:
  assumes "P s" and "\<And>s i. P s \<Longrightarrow> P (settle thunks i s)"
  shows "P (fold (settle thunks) sched s)"
  using assms(1) by (induction sched arbitrary: s) (simp_all add: assms(2))

lemma length_inflight_settle:
  "length (inflight (settle thunks i s)) \<le> length (inflight s)"
  using length_pos_if_in_set [of i "inflight s"]
  by (auto simp: settle_inflight length_remove1)

lemma run_inflight_le:
  "length (inflight (run thunks n cpus sched)) \<le> length (slice0 thunks (limit n cpus))"
  unfolding run_def
proof (rule fold_settle_induct)
  show "length (inflight (promiseAllConcurrent thunks n cpus)) \<le> length (slice0 thunks (limit n cpus))"
    by (simp add: promiseAllConcurrent_def Let_def fold_launch)
next
  fix s :: "('a, 'b) runner" and i
  assume "length (inflight s) \<le> length (slice0 thunks (limit n cpus))"
  with length_inflight_settle [of thunks i s]
  show "length (inflight (settle thunks i s)) \<le> length (slice0 thunks (limit n cpus))"
    by simp
qed

lemma length_slice0_nat:
  "1 \<le> L \<Longrightarrow> length (slice0 thunks (limit (Some (rat_of_nat L)) cpus)) = min L (length thunks)"
  by (simp add: slice0_def limit_def toInteger_def Let_def)

lemma cursor_inv_init: "cursor_inv thunks (promiseAllConcurrent thunks n cpus)"
  by (simp add: cursor_inv_def promiseAllConcurrent_def Let_def fold_launch slice0_def)

lemma cursor_inv_settle:
  assumes "cursor_inv thunks s"
  shows "cursor_inv thunks (settle thunks i s)"
proof (cases "i \<in> set (inflight s)")
  case False
  then show ?thesis using assms by (simp add: settle_def)
next
  case True
  from assms have n: "nextIdx s \<le> length thunks" and r: "resolved s = [0..<nextIdx s]"
    and d1: "distinct (inflight s)" and d2: "distinct (settled s)"
    and dj: "set (inflight s) \<inter> set (settled s) = {}"
    and un: "set (inflight s) \<union> set (settled s) = {0..<nextIdx s}"
    and ag: "aggregate s = None \<or>
             aggregate s = Some [0..<length thunks] \<and> nextIdx s = length thunks"
    by (simp_all add: cursor_inv_def)
  have i: "i < nextIdx s" "i \<notin> set (settled s)"
    using True dj un by auto
  have nf: "nextIdx s \<notin> set (inflight s)" "nextIdx s \<notin> set (settled s)"
    using un by auto
  have rm: "set (remove1 i (inflight s)) = set (inflight s) - {i}"
    using d1 by simp
  have d1': "distinct (remove1 i (inflight s))"
    using d1 by simp
  have dj': "set (remove1 i (inflight s)) \<inter> set (settled s @ [i]) = {}"
    using dj rm by auto
  have un': "set (remove1 i (inflight s)) \<union> set (settled s @ [i]) = {0..<nextIdx s}"
    using un rm True by auto
  have d2': "distinct (settled s @ [i])"
    using d2 i by simp
  show ?thesis
  proof (cases "\<not> fails (thunks ! i) \<and> nextIdx s \<noteq> length thunks")
    case launch: True
    have "nextIdx s \<notin> set (remove1 i (inflight s))"
      using nf rm by simp
    then have a: "distinct (remove1 i (inflight s) @ [nextIdx s])"
      using d1' by simp
    have b: "set (remove1 i (inflight s) @ [nextIdx s]) \<inter> set (settled s @ [i]) = {}"
      using dj' nf i by auto
    have "set (remove1 i (inflight s) @ [nextIdx s]) \<union> set (settled s @ [i])
        = insert (nextIdx s) (set (remove1 i (inflight s)) \<union> set (settled s @ [i]))"
      by (simp add: insert_commute)
    also have "\<dots> = insert (nextIdx s) {0..<nextIdx s}"
      by (simp only: un')
    also have "\<dots> = {0..<nextIdx s + 1}"
      by (simp add: atLeast0_lessThan_Suc)
    finally have c: "set (remove1 i (inflight s) @ [nextIdx s]) \<union> set (settled s @ [i])
        = {0..<nextIdx s + 1}" .
    have e: "aggregate s = None"
      using ag launch by auto
    have f: "inflight (settle thunks i s) = remove1 i (inflight s) @ [nextIdx s]"
      "settled (settle thunks i s) = settled s @ [i]"
      "nextIdx (settle thunks i s) = nextIdx s + 1"
      "resolved (settle thunks i s) = [0..<nextIdx s + 1]"
      "aggregate (settle thunks i s) = None"
      using True launch r e
      by (simp_all add: settle_inflight settle_settled settle_nextIdx settle_resolved
            settle_aggregate)
    have "nextIdx s + 1 \<le> length thunks"
      using n launch by simp
    then show ?thesis
      unfolding cursor_inv_def f using a b c d2' by blast
  next
    case stay: False
    have f: "inflight (settle thunks i s) = remove1 i (inflight s)"
      "settled (settle thunks i s) = settled s @ [i]"
      "nextIdx (settle thunks i s) = nextIdx s"
      "resolved (settle thunks i s) = [0..<nextIdx s]"
      using True stay r
      by (simp_all add: settle_inflight settle_settled settle_nextIdx settle_resolved)
    have g: "aggregate (settle thunks i s) = None \<or>
        aggregate (settle thunks i s) = Some [0..<length thunks] \<and> nextIdx s = length thunks"
      using ag r by (auto simp: settle_aggregate)
    show ?thesis
      unfolding cursor_inv_def f using n d1' dj' un' d2' g by blast
  qed
qed

lemma cursor_inv_run: "cursor_inv thunks (run thunks n cpus sched)"
  unfolding run_def by (rule fold_settle_induct) (simp_all add: cursor_inv_init cursor_inv_settle)


lemma promise_all_map_Fulfilled: "promise_all (map Fulfilled vs) = Fulfilled vs"
  by (induction vs) simp_all

lemma promise_all_FulfilledD:
  "promise_all qs = Fulfilled vs \<Longrightarrow> qs = map Fulfilled vs"
  by (induction qs arbitrary: vs rule: promise_all.induct) (auto split: promise.splits)

lemma promise_all_Fulfilled:
  "promise_all qs = Fulfilled vs \<longleftrightarrow> qs = map Fulfilled vs"
  using promise_all_FulfilledD promise_all_map_Fulfilled by blast

lemma promise_all_Rejected:
  "promise_all qs = Rejected e \<Longrightarrow> Rejected e \<in> set qs"
  by (induction qs rule: promise_all.induct) (auto split: promise.splits)

lemma promise_all_Pending:
  "promise_all qs = Pending \<Longrightarrow> Pending \<in> set qs \<and> (\<forall>e. Rejected e \<notin> set qs)"
  by (induction qs rule: promise_all.induct)
     (auto split: promise.splits dest: promise_all_FulfilledD)

lemma promiseState_Fulfilled:
  "promiseState thunks done i = Fulfilled v \<longleftrightarrow> i \<in> set done \<and> thunks ! i = Resolves v"
  by (cases "thunks ! i") (auto simp: promiseState_def)

lemma promiseState_Rejected:
  "promiseState thunks done i = Rejected e \<longleftrightarrow> i \<in> set done \<and> thunks ! i = Rejects e"
  by (cases "thunks ! i") (auto simp: promiseState_def)

lemma promiseState_Pending:
  "promiseState thunks done i = Pending \<longleftrightarrow> i \<notin> set done"
  by (cases "thunks ! i") (auto simp: promiseState_def)

lemma all_Fulfilled:
  assumes "promise_all (map (promiseState thunks done) [0..<length thunks]) = Fulfilled vs"
  shows "thunks = map Resolves vs \<and> {0..<length thunks} \<subseteq> set done"
proof -
  from assms have eq: "map (promiseState thunks done) [0..<length thunks] = map Fulfilled vs"
    by (simp add: promise_all_Fulfilled)
  then have len: "length vs = length thunks"
    by (metis length_map length_upt minus_nat.diff_0)
  have nth: "promiseState thunks done i = Fulfilled (vs ! i)" if "i < length thunks" for i
  proof -
    have "map (promiseState thunks done) [0..<length thunks] ! i = map Fulfilled vs ! i"
      by (simp only: eq)
    then show ?thesis using that len by simp
  qed
  have "thunks = map Resolves vs"
  proof (rule nth_equalityI)
    show "length thunks = length (map Resolves vs)" using len by simp
  next
    fix i assume "i < length thunks"
    then show "thunks ! i = map Resolves vs ! i"
      using nth [of i] len by (simp add: promiseState_Fulfilled)
  qed
  moreover have "{0..<length thunks} \<subseteq> set done"
    using nth by (auto simp: promiseState_Fulfilled)
  ultimately show ?thesis by simp
qed

lemma all_Rejected:
  assumes "promise_all (map (promiseState thunks done) ps) = Rejected e"
  shows "list_ex (\<lambda>i. thunks ! i = Rejects e) done"
proof -
  from promise_all_Rejected [OF assms]
  obtain i where "promiseState thunks done i = Rejected e" by auto
  then show ?thesis by (auto simp: promiseState_Rejected list_ex_iff)
qed

lemma all_Pending:
  assumes "promise_all (map (promiseState thunks done) [0..<length thunks]) = Pending"
    and "set done \<subseteq> {0..<length thunks}"
  shows "\<not> list_ex (\<lambda>i. fails (thunks ! i)) done \<and> set done \<noteq> {0..<length thunks}"
proof -
  from promise_all_Pending [OF assms(1)]
  have p: "Pending \<in> set (map (promiseState thunks done) [0..<length thunks])"
    and r: "\<And>e. Rejected e \<notin> set (map (promiseState thunks done) [0..<length thunks])"
    by simp_all
  from p obtain i where "i < length thunks" "promiseState thunks done i = Pending"
    by auto
  then have "i < length thunks" "i \<notin> set done"
    by (simp_all add: promiseState_Pending)
  then have "set done \<noteq> {0..<length thunks}" by auto
  moreover have "\<not> fails (thunks ! i)" if "i \<in> set done" for i
  proof
    assume "fails (thunks ! i)"
    then obtain e where "thunks ! i = Rejects e" by (cases "thunks ! i") auto
    with that have "promiseState thunks done i = Rejected e"
      by (simp add: promiseState_Rejected)
    moreover have "i < length thunks" using that assms(2) by auto
    ultimately have "Rejected e \<in> set (map (promiseState thunks done) [0..<length thunks])"
      by (metis atLeast0LessThan image_eqI lessThan_iff list.set_map set_upt)
    with r show False by blast
  qed
  ultimately show ?thesis by (auto simp: list_ex_iff)
qed


lemma result_inv_init: "result_inv thunks (promiseAllConcurrent thunks n cpus)"
  by (simp add: result_inv_def promiseAllConcurrent_def Let_def fold_launch)

lemma result_inv_settle:
  assumes c: "cursor_inv thunks s" and r: "result_inv thunks s"
  shows "result_inv thunks (settle thunks i s)"
proof (cases "i \<in> set (inflight s)")
  case False
  then show ?thesis using r by (simp add: settle_def)
next
  case True
  let ?s' = "settle thunks i s"
  have c': "cursor_inv thunks ?s'"
    using c by (rule cursor_inv_settle)
  have st: "settled ?s' = settled s @ [i]"
    using True by (simp add: settle_settled)
  have sub: "set (settled ?s') \<subseteq> {0..<length thunks}"
  proof -
    from c' have u: "set (inflight ?s') \<union> set (settled ?s') = {0..<nextIdx ?s'}"
      and le: "nextIdx ?s' \<le> length thunks"
      by (simp_all add: cursor_inv_def)
    have "set (settled ?s') \<subseteq> set (inflight ?s') \<union> set (settled ?s')"
      by (rule Un_upper2)
    also have "\<dots> = {0..<nextIdx ?s'}"
      by (rule u)
    also have "\<dots> \<subseteq> {0..<length thunks}"
      using le by simp
    finally show ?thesis .
  qed
  have keep: "aggregate ?s' \<noteq> None" if "aggregate s \<noteq> None"
    using that by (simp add: settle_aggregate)
  show ?thesis
  proof (cases "result s")
    case Pending
    show ?thesis
    proof (cases "aggregate ?s'")
      case None
      then have "result ?s' = Pending"
        using Pending True by (simp add: settle_result)
      then show ?thesis using None by (simp add: result_inv_def)
    next
      case (Some ps)
      then have ps: "ps = [0..<length thunks]"
        using c' by (simp add: cursor_inv_def)
      have res: "result ?s'
          = promise_all (map (promiseState thunks (settled ?s')) [0..<length thunks])"
        using Pending True Some ps st by (simp add: settle_result)
      show ?thesis
      proof (cases "result ?s'")
        case p: Pending
        from res p
        have "promise_all (map (promiseState thunks (settled ?s')) [0..<length thunks])
            = Pending"
          by simp
        from all_Pending [OF this sub]
        show ?thesis
          by (simp only: result_inv_def p promise.case) blast
      next
        case f: (Fulfilled vs)
        from res f
        have "promise_all (map (promiseState thunks (settled ?s')) [0..<length thunks])
            = Fulfilled vs"
          by simp
        from all_Fulfilled [OF this]
        have a: "thunks = map Resolves vs" and b: "{0..<length thunks} \<subseteq> set (settled ?s')"
          by blast+
        from b sub have eq: "set (settled ?s') = {0..<length thunks}"
          by blast
        have "aggregate ?s' \<noteq> None"
          using Some by simp
        then show ?thesis
          by (simp only: result_inv_def f promise.case) (use a eq in blast)
      next
        case e: (Rejected e)
        from res e
        have "promise_all (map (promiseState thunks (settled ?s')) [0..<length thunks])
            = Rejected e"
          by simp
        from all_Rejected [OF this]
        have a: "list_ex (\<lambda>i. thunks ! i = Rejects e) (settled ?s')" .
        have "aggregate ?s' \<noteq> None"
          using Some by simp
        then show ?thesis
          by (simp only: result_inv_def e promise.case) (use a in blast)
      qed
    qed
  next
    case (Fulfilled vs)
    then have "result ?s' = Fulfilled vs"
      by (simp add: settle_result)
    moreover from r Fulfilled have "aggregate s \<noteq> None" "thunks = map Resolves vs"
      "set (settled s) = {0..<length thunks}"
      by (simp_all add: result_inv_def)
    moreover have "set (settled ?s') = {0..<length thunks}"
    proof (rule subset_antisym [OF sub])
      have "{0..<length thunks} = set (settled s)"
        using r Fulfilled by (simp add: result_inv_def)
      also have "\<dots> \<subseteq> set (settled ?s')"
        by (simp add: st subset_insertI)
      finally show "{0..<length thunks} \<subseteq> set (settled ?s')" .
    qed
    ultimately show ?thesis using keep by (simp add: result_inv_def)
  next
    case (Rejected e)
    then have "result ?s' = Rejected e"
      by (simp add: settle_result)
    moreover from r Rejected have "aggregate s \<noteq> None"
      "list_ex (\<lambda>i. thunks ! i = Rejects e) (settled s)"
      by (simp_all add: result_inv_def)
    ultimately show ?thesis using keep st by (simp add: result_inv_def)
  qed
qed

lemma invs_run:
  "cursor_inv thunks (run thunks n cpus sched) \<and> result_inv thunks (run thunks n cpus sched)"
  unfolding run_def
  by (rule fold_settle_induct)
     (simp_all add: cursor_inv_init result_inv_init cursor_inv_settle result_inv_settle)


subsection \<open>Runs in which every operation fulfils\<close>

lemma length_slice0_pos:
  assumes "thunks \<noteq> []" and "1 \<le> limit n cpus"
  shows "1 \<le> length (slice0 thunks (limit n cpus))"
proof -
  have "1 \<le> toInteger (limit n cpus)"
    using assms(2) by (simp add: toInteger_def le_floor_iff)
  moreover have "1 \<le> length thunks"
    using assms(1) by (cases thunks) simp_all
  ultimately show ?thesis
    by (simp add: slice0_def Let_def)
qed

lemma launched_below:
  assumes "cursor_inv thunks s"
  shows "set (inflight s) \<subseteq> {0..<length thunks}"
    and "set (settled s) \<subseteq> {0..<length thunks}"
proof -
  from assms have u: "set (inflight s) \<union> set (settled s) = {0..<nextIdx s}"
    and le: "nextIdx s \<le> length thunks"
    by (simp_all add: cursor_inv_def)
  have b: "{0..<nextIdx s} \<subseteq> {0..<length thunks}"
    using le by simp
  have "set (inflight s) \<subseteq> set (inflight s) \<union> set (settled s)"
    by (rule Un_upper1)
  with u b show "set (inflight s) \<subseteq> {0..<length thunks}"
    by (simp only: subset_trans)
  have "set (settled s) \<subseteq> set (inflight s) \<union> set (settled s)"
    by (rule Un_upper2)
  with u b show "set (settled s) \<subseteq> {0..<length thunks}"
    by (simp only: subset_trans)
qed

lemma result_inv_Pending:
  "result_inv thunks s \<Longrightarrow> result s = Pending \<Longrightarrow>
   aggregate s = None \<or> set (settled s) \<noteq> {0..<length thunks}"
  by (auto simp: result_inv_def)

lemma result_inv_no_failure:
  "result_inv thunks s \<Longrightarrow> result s = Pending \<Longrightarrow>
   aggregate s = None \<or> \<not> list_ex (\<lambda>i. fails (thunks ! i)) (settled s)"
  by (auto simp: result_inv_def)

lemma result_inv_Fulfilled:
  "result_inv thunks s \<Longrightarrow> result s = Fulfilled vs \<Longrightarrow> thunks = map Resolves vs"
  "result_inv thunks s \<Longrightarrow> result s = Fulfilled vs \<Longrightarrow>
   set (settled s) = {0..<length thunks}"
  by (simp_all add: result_inv_def)

lemma result_inv_Rejected:
  "result_inv thunks s \<Longrightarrow> result s = Rejected e \<Longrightarrow>
   list_ex (\<lambda>i. thunks ! i = Rejects e) (settled s)"
  by (simp add: result_inv_def)

lemma inflight_full_settle:
  assumes c: "cursor_inv thunks s"
    and ok: "\<forall>t\<in>set thunks. \<not> fails t"
    and k: "aggregate s = None \<longrightarrow> length (inflight s) = k"
  shows "aggregate (settle thunks i s) = None \<longrightarrow> length (inflight (settle thunks i s)) = k"
proof (cases "i \<in> set (inflight s)")
  case False
  then show ?thesis using k by (simp add: settle_def)
next
  case True
  from launched_below(1) [OF c] True have "i < length thunks"
    by (simp add: subset_iff)
  with ok have nf: "\<not> fails (thunks ! i)" by simp
  have pos: "0 < length (inflight s)"
    using True by (rule length_pos_if_in_set)
  show ?thesis
    using True nf k pos
    by (auto simp: settle_aggregate settle_inflight length_remove1 split: if_splits)
qed

lemma inflight_full_run:
  assumes "\<forall>t\<in>set thunks. \<not> fails t"
  shows "aggregate (run thunks n cpus sched) = None \<longrightarrow>
         length (inflight (run thunks n cpus sched)) = length (slice0 thunks (limit n cpus))"
proof -
  let ?k = "length (slice0 thunks (limit n cpus))"
  let ?P = "\<lambda>s. cursor_inv thunks s \<and> (aggregate s = None \<longrightarrow> length (inflight s) = ?k)"
  have "?P (fold (settle thunks) sched (promiseAllConcurrent thunks n cpus))"
  proof (rule fold_settle_induct)
    show "?P (promiseAllConcurrent thunks n cpus)"
      by (simp add: cursor_inv_init) (simp add: promiseAllConcurrent_def Let_def fold_launch)
  next
    fix s :: "('a, 'b) runner" and i
    assume "?P s"
    then have c: "cursor_inv thunks s"
      and k: "aggregate s = None \<longrightarrow> length (inflight s) = ?k"
      by simp_all
    show "?P (settle thunks i s)"
      using cursor_inv_settle [OF c] inflight_full_settle [OF c assms k] by simp
  qed
  then show ?thesis by (simp add: run_def)
qed


section \<open>The claims about the runner\<close>

text \<open>
  C7. Called without a limit, the runner uses the limit max(2, half the number of
  processing units); the half is not rounded, and the initial slice truncates it, so
  min(N, max(2, cpus div 2)) operations are launched by the call.
\<close>

theorem default_limit:
  "limit None cpus = max 2 (rat_of_nat cpus / 2) \<and>
   inflight (promiseAllConcurrent thunks None cpus)
     = [0..<min (length thunks) (max 2 (cpus div 2))]"
  by (simp add: promiseAllConcurrent_def Let_def fold_launch length_slice0_limit_None)
     (simp add: limit_def)


text \<open>
  C3. For every list of operations and every limit \<open>L\<close> with \<open>1 \<le> L \<le> N\<close>, in every
  state of every run at most \<open>L\<close> operations are launched and not yet settled. The
  operations in flight are exactly those launched (below the cursor) and not settled,
  each listed once.
\<close>

theorem inflight_bounded:
  assumes "1 \<le> L" and "L \<le> length thunks"
  shows "length (inflight (run thunks (Some (rat_of_nat L)) cpus sched)) \<le> L \<and>
         distinct (inflight (run thunks (Some (rat_of_nat L)) cpus sched)) \<and>
         set (inflight (run thunks (Some (rat_of_nat L)) cpus sched))
           = {0..<nextIdx (run thunks (Some (rat_of_nat L)) cpus sched)}
             - set (settled (run thunks (Some (rat_of_nat L)) cpus sched))"
proof -
  let ?s = "run thunks (Some (rat_of_nat L)) cpus sched"
  have "length (inflight ?s) \<le> min L (length thunks)"
    using run_inflight_le [of thunks "Some (rat_of_nat L)" cpus sched] assms(1)
    by (simp add: length_slice0_nat)
  then have "length (inflight ?s) \<le> L"
    by simp
  moreover have c: "cursor_inv thunks ?s"
    by (rule cursor_inv_run)
  then have "distinct (inflight ?s)"
    by (simp add: cursor_inv_def)
  moreover have "set (inflight ?s) = {0..<nextIdx ?s} - set (settled ?s)"
  proof -
    from c have "set (inflight ?s) \<inter> set (settled ?s) = {}"
      and "set (inflight ?s) \<union> set (settled ?s) = {0..<nextIdx ?s}"
      by (simp_all add: cursor_inv_def)
    then show ?thesis by blast
  qed
  ultimately show ?thesis by blast
qed

theorem inflight_bounded_witness:
  "(1::nat) \<le> 2 \<and>
   2 \<le> length [Resolves (10::nat), Rejects ''e'', Resolves 30, Resolves 40] \<and>
   length (inflight (run [Resolves (10::nat), Rejects ''e'', Resolves 30, Resolves 40]
     (Some (rat_of_nat 2)) 4 [1, 0])) \<le> 2 \<and>
   inflight (run [Resolves (10::nat), Rejects ''e'', Resolves 30, Resolves 40]
     (Some (rat_of_nat 2)) 4 [1, 0]) = [2]"
proof -
  have "inflight (run [Resolves (10::nat), Rejects ''e'', Resolves 30, Resolves 40]
     (Some (rat_of_nat 2)) 4 [1, 0]) = [2]"
    by code_simp
  then show ?thesis
    using inflight_bounded [of 2 "[Resolves (10::nat), Rejects ''e'', Resolves 30, Resolves 40]"
        4 "[1, 0]"]
    by simp
qed

text \<open>
  C2. On the empty list the call launches nothing, so no callback ever runs and \<open>ok\<close> is
  never called: for every limit and every sequence of events the returned promise stays
  pending. It does not resolve with the empty result list.
\<close>

theorem empty_input_never_resolves:
  "run ([] :: ('a, 'e) operation list) n cpus sched = promiseAllConcurrent [] n cpus \<and>
   result (run ([] :: ('a, 'e) operation list) n cpus sched) = Pending \<and>
   aggregate (run ([] :: ('a, 'e) operation list) n cpus sched) = None \<and>
   result (run ([] :: ('a, 'e) operation list) n cpus sched) \<noteq> Fulfilled []"
proof -
  have init: "promiseAllConcurrent ([] :: ('a, 'e) operation list) n cpus
      = \<lparr>resolved = [], nextIdx = 0, inflight = [], settled = [], aggregate = None,
         result = Pending\<rparr>"
    by (simp add: promiseAllConcurrent_def slice0_def)
  have "fold (settle ([] :: ('a, 'e) operation list)) sched s = s" if "inflight s = []"
    for s :: "('a, 'e) runner"
    using that by (induction sched) (simp_all add: settle_def)
  then have "run ([] :: ('a, 'e) operation list) n cpus sched = promiseAllConcurrent [] n cpus"
    unfolding run_def by (simp add: init)
  then show ?thesis
    by (simp add: init)
qed

text \<open>
  C4. When every operation fulfils (the thunks are \<open>map Resolves vs\<close>), the list is not
  empty and the limit is at least one, then in every state of every run the returned
  promise is pending until every operation has settled, and from then on it is fulfilled
  with exactly \<open>vs\<close>: the \<open>N\<close> values in input order, whatever the order of settling.
  While an operation has not settled, some operation is in flight, so the run can go on.
\<close>

theorem all_succeed_results_in_input_order:
  fixes thunks :: "('a, 'e) operation list"
  assumes "thunks = map Resolves vs" and "vs \<noteq> []" and "1 \<le> limit n cpus"
  shows "result (run thunks n cpus sched)
           = (if set (settled (run thunks n cpus sched)) = {0..<length thunks}
              then Fulfilled vs else Pending) \<and>
         (inflight (run thunks n cpus sched) = []) =
           (set (settled (run thunks n cpus sched)) = {0..<length thunks})"
proof -
  let ?s = "run thunks n cpus sched"
  have c: "cursor_inv thunks ?s" and r: "result_inv thunks ?s"
    using invs_run [of thunks n cpus sched] by simp_all
  from c have dj: "set (inflight ?s) \<inter> set (settled ?s) = {}"
    and un: "set (inflight ?s) \<union> set (settled ?s) = {0..<nextIdx ?s}"
    and ag: "aggregate ?s = None \<or> nextIdx ?s = length thunks"
    by (auto simp: cursor_inv_def)
  have "1 \<le> length (slice0 thunks (limit n cpus))"
    using assms by (intro length_slice0_pos) simp_all
  moreover have "aggregate ?s = None \<longrightarrow>
      length (inflight ?s) = length (slice0 thunks (limit n cpus))"
    by (rule inflight_full_run) (auto simp: assms(1))
  ultimately have full: "aggregate ?s = None \<Longrightarrow> inflight ?s \<noteq> []"
    by auto
  have sub: "set (settled ?s) \<subseteq> {0..<length thunks}"
    and sub': "set (inflight ?s) \<subseteq> {0..<length thunks}"
    using launched_below [OF c] by simp_all
  have done_iff: "(inflight ?s = []) = (set (settled ?s) = {0..<length thunks})"
  proof
    assume e: "inflight ?s = []"
    have "aggregate ?s \<noteq> None"
    proof
      assume "aggregate ?s = None"
      from full [OF this] e show False by simp
    qed
    with ag have "nextIdx ?s = length thunks" by simp
    with un e show "set (settled ?s) = {0..<length thunks}" by simp
  next
    assume a: "set (settled ?s) = {0..<length thunks}"
    from sub' have "set (inflight ?s) \<inter> {0..<length thunks} = set (inflight ?s)"
      by (rule inf.absorb1)
    with dj have "set (inflight ?s) = {}"
      by (simp only: a)
    then show "inflight ?s = []" by simp
  qed
  have res: "result ?s
      = (if set (settled ?s) = {0..<length thunks} then Fulfilled vs else Pending)"
  proof (cases "result ?s")
    case Pending
    from result_inv_Pending [OF r Pending]
    have "aggregate ?s = None \<or> set (settled ?s) \<noteq> {0..<length thunks}" .
    then have "set (settled ?s) \<noteq> {0..<length thunks}"
    proof
      assume "aggregate ?s = None"
      from full [OF this] show ?thesis by (simp add: done_iff)
    qed
    with Pending show ?thesis by simp
  next
    case (Fulfilled ws)
    from result_inv_Fulfilled [OF r Fulfilled]
    have "thunks = map Resolves ws" and a: "set (settled ?s) = {0..<length thunks}" .
    with assms(1) have "map (Resolves :: 'a \<Rightarrow> ('a, 'e) operation) ws = map Resolves vs"
      by simp
    then have "ws = vs"
      by (simp add: inj_map_eq_map inj_def)
    with Fulfilled a show ?thesis by simp
  next
    case (Rejected e)
    from result_inv_Rejected [OF r Rejected]
    have "list_ex (\<lambda>i. thunks ! i = Rejects e) (settled ?s)" .
    then obtain i where "i \<in> set (settled ?s)" "thunks ! i = Rejects e"
      by (auto simp: list_ex_iff)
    with sub have "i < length thunks" "thunks ! i = Rejects e" by auto
    then show ?thesis by (simp add: assms(1))
  qed
  from res done_iff show ?thesis by (rule conjI)
qed

theorem all_succeed_results_in_input_order_witness:
  "[Resolves 10, Resolves 20, Resolves 30] = map Resolves [10 :: nat, 20, 30] \<and>
   [10 :: nat, 20, 30] \<noteq> [] \<and> 1 \<le> limit (Some 2) 4 \<and>
   settled (run ([Resolves 10, Resolves 20, Resolves 30] :: (nat, string) operation list)
     (Some 2) 4 [1, 0, 2]) = [1, 0, 2] \<and>
   inflight (run ([Resolves 10, Resolves 20, Resolves 30] :: (nat, string) operation list)
     (Some 2) 4 [1, 0, 2]) = [] \<and>
   result (run ([Resolves 10, Resolves 20, Resolves 30] :: (nat, string) operation list)
     (Some 2) 4 [1, 0, 2]) = Fulfilled [10, 20, 30]"
proof -
  let ?T = "[Resolves 10, Resolves 20, Resolves 30] :: (nat, string) operation list"
  have h: "?T = map Resolves [10 :: nat, 20, 30]" "[10 :: nat, 20, 30] \<noteq> []"
    "1 \<le> limit (Some 2) 4"
    by (simp_all add: limit_def)
  have st: "settled (run ?T (Some 2) 4 [1, 0, 2]) = [1, 0, 2]"
    and fl: "inflight (run ?T (Some 2) 4 [1, 0, 2]) = []"
    by code_simp+
  from all_succeed_results_in_input_order [OF h, of "[1, 0, 2]"] fl
  have "result (run ?T (Some 2) 4 [1, 0, 2]) = Fulfilled [10, 20, 30]"
    by (simp split: if_splits)
  with h st fl show ?thesis by simp
qed

text \<open>
  C1, as stated, fails. Three operations are launched at once; the second fails first,
  then the first fulfils. The cursor is at the end, so this callback hands
  \<open>Promise.all resolved\<close> to \<open>ok\<close>, and \<open>Promise.all\<close> rejects at once: the failure is
  delivered while the third operation is still in flight.
\<close>

theorem failure_not_awaited_counterexample:
  "result (run ([Resolves 10, Rejects ''boom'', Resolves 30] :: (nat, string) operation list)
     (Some 3) 4 [1, 0]) = Rejected ''boom'' \<and>
   inflight (run ([Resolves 10, Rejects ''boom'', Resolves 30] :: (nat, string) operation list)
     (Some 3) 4 [1, 0]) = [2] \<and>
   settled (run ([Resolves 10, Rejects ''boom'', Resolves 30] :: (nat, string) operation list)
     (Some 3) 4 [1, 0]) = [1, 0]"
  by code_simp


text \<open>
  C1, amended. In every state of every run: a rejection of the returned promise carries
  the error of an operation that has failed; once the aggregate has been requested
  (\<open>ok\<close> has been called), the returned promise is rejected as soon as a settled operation
  has failed, whether or not other operations are still in flight; and the settling of a
  failed operation takes only that operation out of flight and launches nothing, so the
  other launched operations keep running.
\<close>

theorem failure_delivered_fail_fast:
  fixes thunks :: "('a, 'e) operation list"
  shows
    "(\<forall>e. result (run thunks n cpus sched) = Rejected e \<longrightarrow>
        list_ex (\<lambda>i. thunks ! i = Rejects e) (settled (run thunks n cpus sched))) \<and>
     (aggregate (run thunks n cpus sched) \<noteq> None \<and>
      list_ex (\<lambda>i. fails (thunks ! i)) (settled (run thunks n cpus sched)) \<longrightarrow>
        (\<exists>e. result (run thunks n cpus sched) = Rejected e)) \<and>
     (\<forall>i. i \<in> set (inflight (run thunks n cpus sched)) \<and> fails (thunks ! i) \<longrightarrow>
        inflight (settle thunks i (run thunks n cpus sched))
          = remove1 i (inflight (run thunks n cpus sched)) \<and>
        nextIdx (settle thunks i (run thunks n cpus sched))
          = nextIdx (run thunks n cpus sched))"
proof -
  let ?s = "run thunks n cpus sched"
  have c: "cursor_inv thunks ?s" and r: "result_inv thunks ?s"
    using invs_run [of thunks n cpus sched] by simp_all
  have a: "list_ex (\<lambda>i. thunks ! i = Rejects e) (settled ?s)" if "result ?s = Rejected e" for e
    using r that by (rule result_inv_Rejected)
  have b: "\<exists>e. result ?s = Rejected e"
    if ag: "aggregate ?s \<noteq> None" and f: "list_ex (\<lambda>i. fails (thunks ! i)) (settled ?s)"
  proof (cases "result ?s")
    case Pending
    from result_inv_no_failure [OF r Pending] ag f show ?thesis by simp
  next
    case (Fulfilled vs)
    from f obtain i where i: "i \<in> set (settled ?s)" "fails (thunks ! i)"
      by (auto simp: list_ex_iff)
    from launched_below(2) [OF c] i(1) have "i < length thunks"
      by (simp add: subset_iff)
    moreover have "thunks = map Resolves vs"
      using r Fulfilled by (rule result_inv_Fulfilled)
    ultimately have "\<not> fails (thunks ! i)" by simp
    with i(2) show ?thesis by simp
  next
    case (Rejected e)
    then show ?thesis by simp
  qed
  have d: "inflight (settle thunks i ?s) = remove1 i (inflight ?s) \<and>
      nextIdx (settle thunks i ?s) = nextIdx ?s"
    if "i \<in> set (inflight ?s) \<and> fails (thunks ! i)" for i
    using that by (simp add: settle_inflight settle_nextIdx)
  from a b d show ?thesis by simp
qed

theorem failure_delivered_fail_fast_witness:
  "aggregate (run ([Resolves 10, Rejects ''boom'', Rejects ''bang''] :: (nat, string) operation list)
     (Some 3) 4 [2, 1, 0]) = Some [0, 1, 2] \<and>
   settled (run ([Resolves 10, Rejects ''boom'', Rejects ''bang''] :: (nat, string) operation list)
     (Some 3) 4 [2, 1, 0]) = [2, 1, 0] \<and>
   result (run ([Resolves 10, Rejects ''boom'', Rejects ''bang''] :: (nat, string) operation list)
     (Some 3) 4 [2, 1, 0]) = Rejected ''boom'' \<and>
   list_ex (\<lambda>i. [Resolves 10, Rejects ''boom'', Rejects ''bang''] ! i
       = (Rejects ''boom'' :: (nat, string) operation))
     (settled (run ([Resolves 10, Rejects ''boom'', Rejects ''bang''] :: (nat, string) operation list)
       (Some 3) 4 [2, 1, 0]))"
proof -
  let ?T = "[Resolves 10, Rejects ''boom'', Rejects ''bang''] :: (nat, string) operation list"
  have ag: "aggregate (run ?T (Some 3) 4 [2, 1, 0]) = Some [0, 1, 2]"
    and st: "settled (run ?T (Some 3) 4 [2, 1, 0]) = [2, 1, 0]"
    and re: "result (run ?T (Some 3) 4 [2, 1, 0]) = Rejected ''boom''"
    by code_simp+
  from failure_delivered_fail_fast [of ?T "Some 3" 4 "[2, 1, 0]"] re
  have "list_ex (\<lambda>i. ?T ! i = Rejects ''boom'') (settled (run ?T (Some 3) 4 [2, 1, 0]))"
    by blast
  with ag st re show ?thesis by simp
qed


text \<open>
  Beside the claim: a failed operation runs no callback, so a run whose only operation
  fails never requests the aggregate, and the returned promise stays pending for ever.
\<close>

lemma settle_idle: "inflight s = [] \<Longrightarrow> fold (settle thunks) sched s = s"
  by (induction sched) (simp_all add: settle_def)

lemma lone_failure_never_delivered:
  fixes thunks :: "('a, 'e) operation list"
  assumes "thunks = [Rejects e]"
  shows "result (run thunks (Some 1) cpus (0 # sched)) = Pending \<and>
         aggregate (run thunks (Some 1) cpus (0 # sched)) = None \<and>
         settled (run thunks (Some 1) cpus (0 # sched)) = [0]"
proof -
  have "settle thunks 0 (promiseAllConcurrent thunks (Some 1) cpus)
      = \<lparr>resolved = [0], nextIdx = 1, inflight = [], settled = [0], aggregate = None,
         result = Pending\<rparr>"
    by (simp add: assms promiseAllConcurrent_def slice0_def limit_def toInteger_def
          launch_def settle_def deliver_def)
  then show ?thesis
    by (simp add: run_def settle_idle)
qed

section \<open>Properties of the extractor\<close>

lemma foldl_onentry:
  "foldl (onentry filePath) data entries
     = data @ concat (map chunks (filter (\<lambda>e. path e = filePath) entries))"
  by (induction entries arbitrary: data) (simp_all add: onentry_def)

text \<open>
  C8, as stated, fails on an archive that holds two entries with the requested path (a
  tar archive may: appending to an archive adds a second entry with the same path). The
  callback collects the chunks of every matching entry, so the result is the bytes of both,
  which are the bytes of neither.
\<close>

theorem extract_duplicate_paths_counterexample:
  "extractFileFromTarball
     (\<lambda>f. Inr [\<lparr>path = ''package/package.json'', chunks = [[1, 2]]\<rparr>,
                \<lparr>path = ''package/package.json'', chunks = [[3]]\<rparr>])
     ''a.tgz'' ''package/package.json'' = Inr [1, 2, 3] \<and>
   [1, 2, 3] \<noteq> concat (chunks \<lparr>path = ''package/package.json'', chunks = [[1, 2 :: 8 word]]\<rparr>) \<and>
   [1, 2, 3] \<noteq> concat (chunks \<lparr>path = ''package/package.json'', chunks = [[3 :: 8 word]]\<rparr>)"
  by (simp add: extractFileFromTarball_def onentry_def)

text \<open>
  C8, amended. For every archive that can be opened and parsed, the extractor returns the
  bytes of all entries with the requested path, concatenated in archive order: exactly the
  entry's bytes when exactly one entry has the path, and empty bytes, not an error, when no
  entry has it.
\<close>

theorem extract_concatenates_matching_entries:
  assumes "list_archive tarball = Inr entries"
  shows "extractFileFromTarball list_archive tarball filePath
           = Inr (concat (concat (map chunks (filter (\<lambda>e. path e = filePath) entries)))) \<and>
         (\<forall>e. filter (\<lambda>e. path e = filePath) entries = [e] \<longrightarrow>
            extractFileFromTarball list_archive tarball filePath = Inr (concat (chunks e))) \<and>
         (filePath \<notin> path ` set entries \<longrightarrow>
            extractFileFromTarball list_archive tarball filePath = Inr [])"
proof -
  have a: "extractFileFromTarball list_archive tarball filePath
      = Inr (concat (concat (map chunks (filter (\<lambda>e. path e = filePath) entries))))"
    using assms by (simp add: extractFileFromTarball_def foldl_onentry)
  have "filter (\<lambda>e. path e = filePath) entries = []" if "filePath \<notin> path ` set entries"
    using that by (auto simp: filter_empty_conv)
  with a show ?thesis by simp
qed

theorem extract_concatenates_matching_entries_witness:
  "(\<lambda>f. Inr [\<lparr>path = ''package/package.json'', chunks = [[123], [125]]\<rparr>,
             \<lparr>path = ''package/index.js'', chunks = [[59]]\<rparr>]) ''a.tgz''
     = (Inr [\<lparr>path = ''package/package.json'', chunks = [[123], [125]]\<rparr>,
             \<lparr>path = ''package/index.js'', chunks = [[59]]\<rparr>] :: error + entry list) \<and>
   extractFileFromTarball
     (\<lambda>f. Inr [\<lparr>path = ''package/package.json'', chunks = [[123], [125]]\<rparr>,
                \<lparr>path = ''package/index.js'', chunks = [[59]]\<rparr>])
     ''a.tgz'' ''package/package.json'' = Inr [123, 125] \<and>
   extractFileFromTarball
     (\<lambda>f. Inr [\<lparr>path = ''package/package.json'', chunks = [[123], [125]]\<rparr>,
                \<lparr>path = ''package/index.js'', chunks = [[59]]\<rparr>])
     ''a.tgz'' ''package/README.md'' = Inr []"
  using extract_concatenates_matching_entries
    [of "\<lambda>f. Inr [\<lparr>path = ''package/package.json'', chunks = [[123], [125]]\<rparr>,
                  \<lparr>path = ''package/index.js'', chunks = [[59]]\<rparr>]"
        "''a.tgz''"
        "[\<lparr>path = ''package/package.json'', chunks = [[123], [125]]\<rparr>,
          \<lparr>path = ''package/index.js'', chunks = [[59]]\<rparr>]"]
  by simp

section \<open>Properties of the configuration\<close>

text \<open>
  C9. Whatever the masks to hide, the package configuration of the serve phase maps
  \<open>**\<close> to the rule that proxies to \<open>npmjs\<close>: the assignment of the catch-all rule comes
  after the loop over the masks, so a mask \<open>**\<close> among them (first, last or anywhere) is
  overwritten and hides nothing.
\<close>

theorem catch_all_assigned_last:
  "finalPackageConfig masks ''**'' = Some proxyRule \<and>
   proxy proxyRule = Some ''npmjs'' \<and>
   finalPackageConfig (''**'' # masks) ''**'' \<noteq> Some hiddenRule \<and>
   finalPackageConfig (masks @ [''**'']) ''**'' \<noteq> Some hiddenRule"
  by (simp add: finalPackageConfig_def proxyRule_def hiddenRule_def)


section \<open>Properties of the orchestrator\<close>

lemma lifecycle_ok_prefix:
  "lifecycle_ok ls tr \<Longrightarrow> length (foldl bound_after ls (take k tr)) \<le> 1"
proof (induction tr arbitrary: ls k)
  case Nil
  then show ?case by simp
next
  case (Cons e es)
  show ?case
  proof (cases k)
    case 0
    with Cons.prems show ?thesis by simp
  next
    case (Suc j)
    from Cons.prems have "lifecycle_ok (bound_after ls e) es" by simp
    from Cons.IH [OF this, of j] Suc show ?thesis by simp
  qed
qed

lemma lifecycle_ok_listen:
  "lifecycle_ok ls tr \<Longrightarrow> i < length tr \<Longrightarrow> tr ! i = Listen ph \<Longrightarrow>
   foldl bound_after ls (take i tr) = []"
proof (induction tr arbitrary: ls i)
  case Nil
  then show ?case by simp
next
  case (Cons e es)
  show ?case
  proof (cases i)
    case 0
    with Cons.prems show ?thesis by simp
  next
    case (Suc j)
    from Cons.prems have "lifecycle_ok (bound_after ls e) es" by simp
    moreover from Cons.prems Suc have "j < length es" "es ! j = Listen ph" by simp_all
    ultimately have "foldl bound_after (bound_after ls e) (take j es) = []" by (rule Cons.IH)
    with Suc show ?thesis by simp
  qed
qed

lemma runWithServer_lifecycle_ok: "lifecycle_ok [] (runWithServer env)"
  by (simp add: runWithServer_def afterTry_def tryBlock_def publishPhase_def servePhase_def
        runVerdaccio_def split: sum.splits outcome.splits)

lemma example_run:
  "runWithServer
     \<lparr>hide_upstream = [], hide_tarballs = False, tarballFiles = Inr [''a.tgz''],
      tar_t = (\<lambda>f. Inr [\<lparr>path = ''package/package.json'', chunks = [[123, 125]]\<rparr>]),
      json_parse = (\<lambda>b. Inr (JValue ''a'')), writeFile_ok = True,
      registry_up = (\<lambda>ph. True), publishOutcome = Done, actionOutcome = Done\<rparr>
   = [Mkdtemp, StartVerdaccio PublishPhase, Listen PublishPhase, PublishAll [''a.tgz''],
      Close PublishPhase, StartVerdaccio ServePhase, Listen ServePhase, Action,
      Close ServePhase, Rmdir]"
  by (simp add: runWithServer_def afterTry_def tryBlock_def publishPhase_def servePhase_def
        runVerdaccio_def tarballsOf_def extractFileFromTarball_def onentry_def
        packagesToHide_def)

text \<open>
  C5. In every run of the orchestrator, whatever the environment answers, after every
  prefix of the trace at most one registry listener is bound; and whenever a listener is
  bound (the listen callback of either phase runs), no listener is bound at that moment:
  when the serve phase listens, \<open>webServer.close()\<close> of the publish phase has been called.
\<close>

theorem one_listener_at_a_time:
  "length (listeners (take k (runWithServer env))) \<le> 1 \<and>
   (\<forall>i ph. i < length (runWithServer env) \<and> runWithServer env ! i = Listen ph \<longrightarrow>
      listeners (take i (runWithServer env)) = [])"
  using lifecycle_ok_prefix [OF runWithServer_lifecycle_ok, of k env]
    lifecycle_ok_listen [OF runWithServer_lifecycle_ok, of _ env]
  by (simp add: listeners_def)

theorem one_listener_at_a_time_witness:
  "(6::nat) < length (runWithServer
     \<lparr>hide_upstream = [], hide_tarballs = False, tarballFiles = Inr [''a.tgz''],
      tar_t = (\<lambda>f. Inr [\<lparr>path = ''package/package.json'', chunks = [[123, 125]]\<rparr>]),
      json_parse = (\<lambda>b. Inr (JValue ''a'')), writeFile_ok = True,
      registry_up = (\<lambda>ph. True), publishOutcome = Done, actionOutcome = Done\<rparr>) \<and>
   runWithServer
     \<lparr>hide_upstream = [], hide_tarballs = False, tarballFiles = Inr [''a.tgz''],
      tar_t = (\<lambda>f. Inr [\<lparr>path = ''package/package.json'', chunks = [[123, 125]]\<rparr>]),
      json_parse = (\<lambda>b. Inr (JValue ''a'')), writeFile_ok = True,
      registry_up = (\<lambda>ph. True), publishOutcome = Done, actionOutcome = Done\<rparr> ! 6
     = Listen ServePhase \<and>
   listeners (take 6 (runWithServer
     \<lparr>hide_upstream = [], hide_tarballs = False, tarballFiles = Inr [''a.tgz''],
      tar_t = (\<lambda>f. Inr [\<lparr>path = ''package/package.json'', chunks = [[123, 125]]\<rparr>]),
      json_parse = (\<lambda>b. Inr (JValue ''a'')), writeFile_ok = True,
      registry_up = (\<lambda>ph. True), publishOutcome = Done, actionOutcome = Done\<rparr>)) = [] \<and>
   listeners (take 4 (runWithServer
     \<lparr>hide_upstream = [], hide_tarballs = False, tarballFiles = Inr [''a.tgz''],
      tar_t = (\<lambda>f. Inr [\<lparr>path = ''package/package.json'', chunks = [[123, 125]]\<rparr>]),
      json_parse = (\<lambda>b. Inr (JValue ''a'')), writeFile_ok = True,
      registry_up = (\<lambda>ph. True), publishOutcome = Done, actionOutcome = Done\<rparr>))
     = [PublishPhase]"
proof -
  let ?E = "\<lparr>hide_upstream = [], hide_tarballs = False, tarballFiles = Inr [''a.tgz''],
      tar_t = (\<lambda>f. Inr [\<lparr>path = ''package/package.json'', chunks = [[123, 125]]\<rparr>]),
      json_parse = (\<lambda>b. Inr (JValue ''a'')), writeFile_ok = True,
      registry_up = (\<lambda>ph. True), publishOutcome = Done, actionOutcome = Done\<rparr>"
  have a: "(6::nat) < length (runWithServer ?E)" "runWithServer ?E ! 6 = Listen ServePhase"
    by (simp_all add: example_run)
  have b: "listeners (take 4 (runWithServer ?E)) = [PublishPhase]"
    by (simp add: example_run listeners_def)
  from one_listener_at_a_time [of 0 ?E] a
  have "listeners (take 6 (runWithServer ?E)) = []"
    by blast
  with a b show ?thesis by simp
qed

text \<open>
  C10. When the list of collected tarballs is empty, the trace has no event of the publish
  phase: its registry is not started, does not listen, nothing is published and nothing is
  closed. If the file listing and the writing of \<open>.npmrc\<close> succeed, the run is the serve
  phase alone, and the registry of the serve phase is started.
\<close>

theorem no_tarballs_skips_publish_phase:
  assumes "tarballsOf env = []"
  shows "StartVerdaccio PublishPhase \<notin> set (runWithServer env) \<and>
         Listen PublishPhase \<notin> set (runWithServer env) \<and>
         Close PublishPhase \<notin> set (runWithServer env) \<and>
         (\<forall>files. PublishAll files \<notin> set (runWithServer env)) \<and>
         (\<not> isl (tarballFiles env) \<and> writeFile_ok env \<longrightarrow>
            runWithServer env = Mkdtemp # afterTry (servePhase env) \<and>
            StartVerdaccio ServePhase \<in> set (runWithServer env))"
  using assms
  by (simp add: runWithServer_def afterTry_def tryBlock_def publishPhase_def servePhase_def
        runVerdaccio_def packagesToHide_def split: sum.splits outcome.splits)

theorem no_tarballs_skips_publish_phase_witness:
  "tarballsOf
     \<lparr>hide_upstream = [''**''], hide_tarballs = True, tarballFiles = Inr [''a.tgz''],
      tar_t = (\<lambda>f. Inr [\<lparr>path = ''package/index.js'', chunks = [[59]]\<rparr>]),
      json_parse = (\<lambda>b. if b = [] then Inl (Error ''SyntaxError'') else Inr (JValue ''a'')),
      writeFile_ok = True, registry_up = (\<lambda>ph. True), publishOutcome = Done,
      actionOutcome = Done\<rparr> = [] \<and>
   runWithServer
     \<lparr>hide_upstream = [''**''], hide_tarballs = True, tarballFiles = Inr [''a.tgz''],
      tar_t = (\<lambda>f. Inr [\<lparr>path = ''package/index.js'', chunks = [[59]]\<rparr>]),
      json_parse = (\<lambda>b. if b = [] then Inl (Error ''SyntaxError'') else Inr (JValue ''a'')),
      writeFile_ok = True, registry_up = (\<lambda>ph. True), publishOutcome = Done,
      actionOutcome = Done\<rparr>
     = [Mkdtemp, StartVerdaccio ServePhase, Listen ServePhase, Action, Close ServePhase, Rmdir]"
proof -
  let ?E = "\<lparr>hide_upstream = [''**''], hide_tarballs = True, tarballFiles = Inr [''a.tgz''],
      tar_t = (\<lambda>f. Inr [\<lparr>path = ''package/index.js'', chunks = [[59]]\<rparr>]),
      json_parse = (\<lambda>b. if b = [] then Inl (Error ''SyntaxError'') else Inr (JValue ''a'')),
      writeFile_ok = True, registry_up = (\<lambda>ph. True), publishOutcome = Done,
      actionOutcome = Done\<rparr>"
  have t: "tarballsOf ?E = []"
    by (simp add: tarballsOf_def extractFileFromTarball_def onentry_def)
  from no_tarballs_skips_publish_phase [OF t]
  have "runWithServer ?E = Mkdtemp # afterTry (servePhase ?E)"
    by simp
  then have "runWithServer ?E
      = [Mkdtemp, StartVerdaccio ServePhase, Listen ServePhase, Action, Close ServePhase, Rmdir]"
    by (simp add: afterTry_def servePhase_def runVerdaccio_def)
  with t show ?thesis by simp
qed

section \<open>Properties of the daemon front end\<close>

lemma bashExports_npmConfigVars:
  "bashExports (npmConfigVars path_join tempDir port pid) @ [newline]
     = concat (map (\<lambda>l. l @ [newline])
         [''export npm_config_userconfig='' @ path_join tempDir ''.npmrc'',
          ''export npm_config_registry=http://localhost:'' @ decimal port @ ''/'',
          ''export SERVE_NPM_TARBALLS_PID='' @ decimal pid,
          ''export SERVE_NPM_TARBALLS_WORKDIR='' @ tempDir])"
  by (simp add: bashExports_def npmConfigVars_def)

lemma lines_line: "newline \<notin> set l \<Longrightarrow> lines (l @ newline # rest) = l # lines rest"
  by (induction l) auto

lemma decimal_examples: "decimal 4873 = ''4873''" "decimal 42 = ''42''"
  by simp_all

text \<open>
  C6, as stated, fails: the child joins the export statements with newlines, one per
  setting, and the parent prints the message and a final newline. With the port 4873, the
  working directory \<open>/tmp/x\<close> and the process id 42 the output has four lines, not one.
\<close>

theorem daemon_output_four_lines_counterexample:
  "lines (stdout (daemonParent (Some (bashExports
      (npmConfigVars (\<lambda>a b. a @ ''/'' @ b) ''/tmp/x'' 4873 42)))))
     = [''export npm_config_userconfig=/tmp/x/.npmrc'',
        ''export npm_config_registry=http://localhost:4873/'',
        ''export SERVE_NPM_TARBALLS_PID=42'',
        ''export SERVE_NPM_TARBALLS_WORKDIR=/tmp/x''] \<and>
   length (lines (stdout (daemonParent (Some (bashExports
      (npmConfigVars (\<lambda>a b. a @ ''/'' @ b) ''/tmp/x'' 4873 42)))))) \<noteq> 1"
proof -
  have out: "stdout (daemonParent (Some (bashExports
      (npmConfigVars (\<lambda>a b. a @ ''/'' @ b) ''/tmp/x'' 4873 42))))
     = ''export npm_config_userconfig=/tmp/x/.npmrc'' @ newline #
       ''export npm_config_registry=http://localhost:4873/'' @ newline #
       ''export SERVE_NPM_TARBALLS_PID=42'' @ newline #
       ''export SERVE_NPM_TARBALLS_WORKDIR=/tmp/x'' @ newline # []"
    by (simp add: stdout_def daemonParent_def bashExports_npmConfigVars decimal_examples)
  have nl: "newline \<notin> set ''export npm_config_userconfig=/tmp/x/.npmrc''"
    "newline \<notin> set ''export npm_config_registry=http://localhost:4873/''"
    "newline \<notin> set ''export SERVE_NPM_TARBALLS_PID=42''"
    "newline \<notin> set ''export SERVE_NPM_TARBALLS_WORKDIR=/tmp/x''"
    by (simp_all add: newline_def)
  have "lines (stdout (daemonParent (Some (bashExports
      (npmConfigVars (\<lambda>a b. a @ ''/'' @ b) ''/tmp/x'' 4873 42)))))
     = [''export npm_config_userconfig=/tmp/x/.npmrc'',
        ''export npm_config_registry=http://localhost:4873/'',
        ''export SERVE_NPM_TARBALLS_PID=42'',
        ''export SERVE_NPM_TARBALLS_WORKDIR=/tmp/x'']"
    by (simp only: out lines_line [OF nl(1)] lines_line [OF nl(2)] lines_line [OF nl(3)]
          lines_line [OF nl(4)] lines.simps)
  then show ?thesis by simp
qed

text \<open>
  C6, amended. In daemon mode, when the child's run reaches the action, the parent forks
  the child, writes the child's one message and a newline to standard output, and then
  disconnects and unreferences the child without waiting for it. The output is four lines
  of the form \<open>export NAME=VALUE\<close>, one per setting, among them the registry URL
  \<open>export npm_config_registry=http://localhost:PORT/\<close>.
\<close>

theorem daemon_parent_relays_exports:
  assumes "Action \<in> set (runWithServer env)"
  shows "daemonParent (daemonChildMessage env path_join tempDir port pid)
           = [Fork,
              StdoutWrite (concat (map (\<lambda>l. l @ [newline])
                [''export npm_config_userconfig='' @ path_join tempDir ''.npmrc'',
                 ''export npm_config_registry=http://localhost:'' @ decimal port @ ''/'',
                 ''export SERVE_NPM_TARBALLS_PID='' @ decimal pid,
                 ''export SERVE_NPM_TARBALLS_WORKDIR='' @ tempDir])),
              Disconnect, Unref]"
  using assms
  by (simp only: daemonChildMessage_def daemonParent_def if_True option.case
        bashExports_npmConfigVars)


theorem daemon_parent_relays_exports_witness:
  "Action \<in> set (runWithServer
     \<lparr>hide_upstream = [], hide_tarballs = False, tarballFiles = Inr [''a.tgz''],
      tar_t = (\<lambda>f. Inr [\<lparr>path = ''package/package.json'', chunks = [[123, 125]]\<rparr>]),
      json_parse = (\<lambda>b. Inr (JValue ''a'')), writeFile_ok = True,
      registry_up = (\<lambda>ph. True), publishOutcome = Done, actionOutcome = Done\<rparr>) \<and>
   daemonParent (daemonChildMessage
     \<lparr>hide_upstream = [], hide_tarballs = False, tarballFiles = Inr [''a.tgz''],
      tar_t = (\<lambda>f. Inr [\<lparr>path = ''package/package.json'', chunks = [[123, 125]]\<rparr>]),
      json_parse = (\<lambda>b. Inr (JValue ''a'')), writeFile_ok = True,
      registry_up = (\<lambda>ph. True), publishOutcome = Done, actionOutcome = Done\<rparr>
     (\<lambda>a b. a @ ''/'' @ b) ''/tmp/x'' 4873 42)
   = [Fork,
      StdoutWrite (''export npm_config_userconfig=/tmp/x/.npmrc'' @ newline #
        ''export npm_config_registry=http://localhost:4873/'' @ newline #
        ''export SERVE_NPM_TARBALLS_PID=42'' @ newline #
        ''export SERVE_NPM_TARBALLS_WORKDIR=/tmp/x'' @ newline # []),
      Disconnect, Unref]"
proof -
  let ?E = "\<lparr>hide_upstream = [], hide_tarballs = False, tarballFiles = Inr [''a.tgz''],
      tar_t = (\<lambda>f. Inr [\<lparr>path = ''package/package.json'', chunks = [[123, 125]]\<rparr>]),
      json_parse = (\<lambda>b. Inr (JValue ''a'')), writeFile_ok = True,
      registry_up = (\<lambda>ph. True), publishOutcome = Done, actionOutcome = Done\<rparr>"
  have h: "Action \<in> set (runWithServer ?E)"
    by (simp add: example_run)
  from daemon_parent_relays_exports [OF h, of "\<lambda>a b. a @ ''/'' @ b" "''/tmp/x''" 4873 42] h
  show ?thesis
    by (simp add: decimal_examples)
qed

end
